theory Spec2Isabelle
  imports Main "HOL-Library.Word"
begin

unbundle bit_operations_syntax

text \<open>
  The health-check passthrough: the hand-written request encoder and response decoder of
  the \<^verbatim>\<open>grpc.health.v1.Health/Check\<close> call, the classification of the decoded status, and
  the metadata transform that turns a client key into a signed \<^verbatim>\<open>Authorization\<close> entry.
  The first part models the code; the second part states and proves its properties.
\<close>

section \<open>Buffers and JavaScript strings\<close>

text \<open>
  A \<^verbatim>\<open>Buffer\<close> is a sequence of bytes. A JavaScript string is a sequence of UTF-16 code
  units; \<open>js\<close> writes an ASCII literal as such a string.
\<close>

type_synonym byte = "8 word"
type_synonym jsstring = "16 word list"

definition js :: "string \<Rightarrow> jsstring" where
  "js s = map of_char s"

text \<open>
  \<^verbatim>\<open>buffer[i]\<close>: the byte at index \<open>i\<close>, and \<^verbatim>\<open>undefined\<close> (here \<open>None\<close>) for every index
  outside \<open>0 \<le> i < buffer.length\<close>.
\<close>

definition buf_get :: "byte list \<Rightarrow> int \<Rightarrow> byte option" where
  "buf_get buf i = (if 0 \<le> i \<and> i < int (length buf) then Some (buf ! nat i) else None)"

text \<open>
  \<^verbatim>\<open>buffer.subarray(start, end)\<close>: a negative index counts from the end of the buffer, every
  index is clamped to \<open>0 .. buffer.length\<close>, and the view is empty when the end is not after
  the start.
\<close>

definition adjustOffset :: "int \<Rightarrow> int \<Rightarrow> int" where
  "adjustOffset off len = (if off < 0 then max (off + len) 0 else min off len)"

definition subarray :: "byte list \<Rightarrow> int \<Rightarrow> int \<Rightarrow> byte list" where
  "subarray buf start fin =
     (let n = int (length buf);
          s = adjustOffset start n;
          e = adjustOffset fin n
      in take (nat (e - s)) (drop (nat s) buf))"

subsection \<open>UTF-8, as the platform's \<^verbatim>\<open>Buffer.from(s, "utf8")\<close> and \<^verbatim>\<open>buf.toString("utf8")\<close>\<close>

text \<open>
  Encoding reads the string as UTF-16: a high surrogate followed by a low surrogate is one
  code point above U+FFFF, and a surrogate that stands alone is written as U+FFFD.
\<close>

definition is_high_surrogate :: "nat \<Rightarrow> bool" where
  "is_high_surrogate c = (0xD800 \<le> c \<and> c \<le> 0xDBFF)"

definition is_low_surrogate :: "nat \<Rightarrow> bool" where
  "is_low_surrogate c = (0xDC00 \<le> c \<and> c \<le> 0xDFFF)"

definition lone :: "nat \<Rightarrow> nat" where
  "lone c = (if is_high_surrogate c \<or> is_low_surrogate c then 0xFFFD else c)"

fun code_points :: "nat list \<Rightarrow> nat list" where
  "code_points [] = []"
| "code_points [c] = [lone c]"
| "code_points (c # d # cs) =
     (if is_high_surrogate c \<and> is_low_surrogate d
      then (0x10000 + (c - 0xD800) * 0x400 + (d - 0xDC00)) # code_points cs
      else lone c # code_points (d # cs))"




definition utf8_bytes :: "nat \<Rightarrow> nat list" where
  "utf8_bytes c =
     (if c < 0x80 then [c]
      else if c < 0x800 then [0xC0 + c div 64, 0x80 + c mod 64]
      else if c < 0x10000 then [0xE0 + c div 4096, 0x80 + c div 64 mod 64, 0x80 + c mod 64]
      else [0xF0 + c div 262144, 0x80 + c div 4096 mod 64, 0x80 + c div 64 mod 64,
            0x80 + c mod 64])"

definition Buffer_from_utf8 :: "jsstring \<Rightarrow> byte list" where
  "Buffer_from_utf8 s = map of_nat (concat (map utf8_bytes (code_points (map unat s))))"

text \<open>
  Decoding never fails: every maximal ill-formed part of the input becomes one U+FFFD
  (the decoder of the Encoding standard, without its byte-order-mark handling). The
  second byte of a sequence has a narrower range after the lead bytes E0, ED, F0 and F4,
  which excludes overlong forms, surrogates and code points above U+10FFFF.
\<close>

definition is_cont :: "nat \<Rightarrow> bool" where
  "is_cont b = (0x80 \<le> b \<and> b \<le> 0xBF)"

definition lower_bound :: "nat \<Rightarrow> nat" where
  "lower_bound lead = (if lead = 0xE0 then 0xA0 else if lead = 0xF0 then 0x90 else 0x80)"

definition upper_bound :: "nat \<Rightarrow> nat" where
  "upper_bound lead = (if lead = 0xED then 0x9F else if lead = 0xF4 then 0x8F else 0xBF)"

fun utf8_decode :: "nat list \<Rightarrow> nat list" where
  "utf8_decode [] = []"
| "utf8_decode (b # bs) =
     (if b < 0x80 then b # utf8_decode bs
      else if 0xC2 \<le> b \<and> b \<le> 0xDF then
        (case bs of
           [] \<Rightarrow> [0xFFFD]
         | b1 # r1 \<Rightarrow>
             if is_cont b1 then (b mod 32 * 64 + b1 mod 64) # utf8_decode r1
             else 0xFFFD # utf8_decode bs)
      else if 0xE0 \<le> b \<and> b \<le> 0xEF then
        (case bs of
           [] \<Rightarrow> [0xFFFD]
         | b1 # r1 \<Rightarrow>
             if lower_bound b \<le> b1 \<and> b1 \<le> upper_bound b then
               (case r1 of
                  [] \<Rightarrow> [0xFFFD]
                | b2 # r2 \<Rightarrow>
                    if is_cont b2
                    then (b mod 16 * 4096 + b1 mod 64 * 64 + b2 mod 64) # utf8_decode r2
                    else 0xFFFD # utf8_decode r1)
             else 0xFFFD # utf8_decode bs)
      else if 0xF0 \<le> b \<and> b \<le> 0xF4 then
        (case bs of
           [] \<Rightarrow> [0xFFFD]
         | b1 # r1 \<Rightarrow>
             if lower_bound b \<le> b1 \<and> b1 \<le> upper_bound b then
               (case r1 of
                  [] \<Rightarrow> [0xFFFD]
                | b2 # r2 \<Rightarrow>
                    if is_cont b2 then
                      (case r2 of
                         [] \<Rightarrow> [0xFFFD]
                       | b3 # r3 \<Rightarrow>
                           if is_cont b3
                           then (b mod 8 * 262144 + b1 mod 64 * 4096 + b2 mod 64 * 64 + b3 mod 64)
                                # utf8_decode r3
                           else 0xFFFD # utf8_decode r2)
                    else 0xFFFD # utf8_decode r1)
             else 0xFFFD # utf8_decode bs)
      else 0xFFFD # utf8_decode bs)"

definition code_units :: "nat \<Rightarrow> nat list" where
  "code_units c =
     (if c < 0x10000 then [c]
      else [0xD800 + (c - 0x10000) div 0x400, 0xDC00 + (c - 0x10000) mod 0x400])"

datatype js_error = Thrown

text \<open>
  \<^verbatim>\<open>data.toString("utf8")\<close> as a fallible call: it returns a string for every input, so its
  result is always \<open>Inr\<close>.
\<close>

definition utf8_string :: "byte list \<Rightarrow> jsstring" where
  "utf8_string data = map of_nat (concat (map code_units (utf8_decode (map unat data))))"

definition toString_utf8 :: "byte list \<Rightarrow> js_error + jsstring" where
  "toString_utf8 data = Inr (utf8_string data)"

section \<open>The request encoder\<close>

text \<open>
  \<^verbatim>\<open>HealthServiceDefinition.Check.requestSerialize\<close>. The argument is \<^verbatim>\<open>request.service\<close>,
  \<open>None\<close> when it is missing. \<^verbatim>\<open>Buffer.from([0x0a, n])\<close> stores each number modulo 256.
\<close>

definition requestSerialize :: "jsstring option \<Rightarrow> byte list" where
  "requestSerialize request_service =
     (let service = (case request_service of None \<Rightarrow> [] | Some s \<Rightarrow> s)
      in if length service = 0 then []
         else (let serviceBytes = Buffer_from_utf8 service;
                   header = [0x0a, of_nat (length serviceBytes)]
               in header @ serviceBytes))"

section \<open>The response decoder\<close>

subsection \<open>The varint loop\<close>

text \<open>
  The loop that \<^verbatim>\<open>parseProtobufResponse\<close> runs for the value of a wire type 0 field and for
  the length of a wire type 2 field (the source writes the same loop twice). JavaScript's
  \<^verbatim>\<open>|\<close> and \<^verbatim>\<open><<\<close> work on 32-bit integers and \<^verbatim>\<open><<\<close> takes its shift count modulo 32, so
  the accumulator is a 32-bit word, read as a signed number at the end. The last component
  lists the indices at which \<^verbatim>\<open>buffer[offset]\<close> was evaluated.
\<close>

record varint_result =
  vr_offset :: int
  vr_value :: "32 word"
  vr_reads :: "int list"

function readVarint :: "byte list \<Rightarrow> int \<Rightarrow> 32 word \<Rightarrow> nat \<Rightarrow> int list \<Rightarrow> varint_result" where
  "readVarint buf off val shift reads =
     (if off < int (length buf) then
        (case buf_get buf off of
           None \<Rightarrow> \<lparr>vr_offset = off, vr_value = val, vr_reads = reads @ [off]\<rparr>
         | Some b \<Rightarrow>
             (let off' = off + 1;
                  val' = val OR push_bit (shift mod 32) (ucast (b AND 0x7f));
                  reads' = reads @ [off]
              in if b AND 0x80 = 0
                 then \<lparr>vr_offset = off', vr_value = val', vr_reads = reads'\<rparr>
                 else readVarint buf off' val' (shift + 7) reads'))
      else \<lparr>vr_offset = off, vr_value = val, vr_reads = reads\<rparr>)"
  by pat_completeness auto
termination
  by (relation "measure (\<lambda>(buf, off, val, shift, reads). nat (int (length buf) - off))")
     (auto simp: buf_get_def split: if_splits)

declare readVarint.simps [simp del]

subsection \<open>The decoded result\<close>

text \<open>
  The result object has the keys \<^verbatim>\<open>field_<n>\<close>, \<^verbatim>\<open>status\<close>, \<^verbatim>\<open>latency\<close>, \<^verbatim>\<open>error_code\<close> and
  \<^verbatim>\<open>error_message\<close>; its values are numbers, strings or byte buffers.
\<close>

datatype rkey = FieldN nat | Status | Latency | Error_code | Error_message

datatype jsvalue = Num int | Str jsstring | Bytes "byte list"

record pstate =
  offset :: int
  result :: "rkey \<rightharpoonup> jsvalue"
  warnings :: "(nat \<times> int) list"

datatype 'a control = Break 'a | Next 'a

subsection \<open>One iteration of the outer loop\<close>

text \<open>
  The body of \<^verbatim>\<open>while (offset < buffer.length)\<close> in \<^verbatim>\<open>parseProtobufResponse\<close>. \<open>Break\<close> is
  the \<^verbatim>\<open>break\<close> on an undefined tag; \<open>warnings\<close> collects what \<^verbatim>\<open>console.warn\<close> prints,
  as the wire type and the offset of the tag.
\<close>

definition parseStep :: "byte list \<Rightarrow> pstate \<Rightarrow> pstate control" where
  "parseStep buf st =
     (case buf_get buf (offset st) of
        None \<Rightarrow> Break st
      | Some tag \<Rightarrow>
          (let fieldNumber = unat (drop_bit 3 tag);
               wireType = unat (tag AND 0x07);
               off1 = offset st + 1
           in if wireType = 0 then
                (let r = readVarint buf off1 0 0 [];
                     v = sint (vr_value r);
                     res = (result st)(FieldN fieldNumber \<mapsto> Num v);
                     res1 = (if fieldNumber = 1 then res(Status \<mapsto> Num v) else res)
                 in Next (st\<lparr>offset := vr_offset r, result := res1\<rparr>))
              else if wireType = 2 then
                (let r = readVarint buf off1 0 0 [];
                     len = sint (vr_value r);
                     data = subarray buf (vr_offset r) (vr_offset r + len);
                     off2 = vr_offset r + len
                 in case toString_utf8 data of
                      Inr str \<Rightarrow>
                        (let res = (result st)(FieldN fieldNumber \<mapsto> Str str);
                             res2 = (if fieldNumber = 2 then res(Latency \<mapsto> Str str) else res);
                             res4 = (if fieldNumber = 4 then res2(Error_code \<mapsto> Str str) else res2);
                             res5 = (if fieldNumber = 5 then res4(Error_message \<mapsto> Str str)
                                     else res4)
                         in Next (st\<lparr>offset := off2, result := res5\<rparr>))
                    | Inl e \<Rightarrow>
                        Next (st\<lparr>offset := off2,
                                 result := (result st)(FieldN fieldNumber \<mapsto> Bytes data)\<rparr>))
              else Next (st\<lparr>warnings := warnings st @ [(wireType, off1 - 1)],
                             offset := int (length buf)\<rparr>)))"

subsection \<open>The outer loop\<close>

text \<open>The loop may run forever; not returning is the value \<open>None\<close>.\<close>

partial_function (option) parseLoop :: "byte list \<Rightarrow> pstate \<Rightarrow> pstate option" where
  "parseLoop buf st =
     (if offset st < int (length buf)
      then (case parseStep buf st of
              Break st' \<Rightarrow> Some st'
            | Next st' \<Rightarrow> parseLoop buf st')
      else Some st)"

declare parseLoop.simps [code]

definition initial :: pstate where
  "initial = \<lparr>offset = 0, result = Map.empty, warnings = []\<rparr>"

definition parseProtobufResponse :: "byte list \<Rightarrow> (rkey \<rightharpoonup> jsvalue) option" where
  "parseProtobufResponse buf = map_option result (parseLoop buf initial)"

section \<open>Status classification\<close>

text \<open>\<^verbatim>\<open>statusToString\<close> and \<^verbatim>\<open>isServing\<close>; \<open>None\<close> is \<^verbatim>\<open>undefined\<close>.\<close>

definition statusToString :: "jsvalue option \<Rightarrow> jsstring" where
  "statusToString st =
     (if st = Some (Num 1) \<or> st = Some (Str (js ''SERVING'')) then js ''SERVING''
      else if st = Some (Num 2) \<or> st = Some (Str (js ''NOT_SERVING'')) then js ''NOT_SERVING''
      else if st = Some (Num 3) \<or> st = Some (Str (js ''SERVICE_UNKNOWN''))
        then js ''SERVICE_UNKNOWN''
      else js ''UNKNOWN'')"

definition isServing :: "jsvalue option \<Rightarrow> bool" where
  "isServing st = (st = Some (Str (js ''SERVING'')) \<or> st = Some (Num 1))"

section \<open>The metadata transform\<close>

text \<open>
  A metadata value is a string, a number or a boolean. The numbers are left abstract;
  \<^verbatim>\<open>String(value)\<close> takes the printing of a number as a parameter.
\<close>

datatype 'n mdvalue = MString jsstring | MNumber 'n | MBoolean bool

record 'n MetadataItem =
  key :: jsstring
  "value" :: "'n mdvalue"

definition String_of :: "('n \<Rightarrow> jsstring) \<Rightarrow> 'n mdvalue \<Rightarrow> jsstring" where
  "String_of numberToString v =
     (case v of
        MString s \<Rightarrow> s
      | MNumber n \<Rightarrow> numberToString n
      | MBoolean b \<Rightarrow> if b then js ''true'' else js ''false'')"

text \<open>\<^verbatim>\<open>String(rounded)\<close> for an integer: its decimal digits, after a minus sign if negative.\<close>

fun digits :: "nat \<Rightarrow> jsstring" where
  "digits n = (if n < 10 then [of_nat (48 + n)] else digits (n div 10) @ [of_nat (48 + n mod 10)])"

declare digits.simps [simp del]

definition String_int :: "int \<Rightarrow> jsstring" where
  "String_int i = (if i < 0 then js ''-'' @ digits (nat (- i)) else digits (nat i))"

text \<open>JavaScript's \<^verbatim>\<open>%\<close> on integers: the remainder has the sign of the dividend.\<close>

definition js_rem :: "int \<Rightarrow> int \<Rightarrow> int" where
  "js_rem a b = sgn a * (\<bar>a\<bar> mod \<bar>b\<bar>)"

text \<open>
  A number of seconds rounded to a multiple of 30, towards zero: down for every time from
  1970 on.
\<close>

definition window30 :: "int \<Rightarrow> int" where
  "window30 seconds =
     (if 0 \<le> seconds then 30 * (seconds div 30) else - (30 * ((- seconds) div 30)))"

text \<open>
  \<^verbatim>\<open>applyClientKeyAuthorization\<close>. What the platform provides is a parameter:
  \<open>toLowerCase\<close> is \<^verbatim>\<open>String.prototype.toLowerCase\<close>, \<open>hmacSha256Hex key msg\<close> is
  \<^verbatim>\<open>createHmac("sha256", key).update(msg).digest("hex")\<close>, and \<open>now\<close> is the value of
  \<^verbatim>\<open>Date.now()\<close>, in milliseconds.
\<close>

definition applyClientKeyAuthorization ::
  "(jsstring \<Rightarrow> jsstring) \<Rightarrow> ('n \<Rightarrow> jsstring) \<Rightarrow> (jsstring \<Rightarrow> jsstring \<Rightarrow> jsstring) \<Rightarrow> int
     \<Rightarrow> 'n MetadataItem list \<Rightarrow> 'n MetadataItem list" where
  "applyClientKeyAuthorization toLowerCase numberToString hmacSha256Hex now entries =
     (case List.find (\<lambda>entry. toLowerCase (key entry) = js ''client-key'') entries of
        None \<Rightarrow> entries
      | Some clientEntry \<Rightarrow>
          (let secretKey = String_of numberToString (value clientEntry);
               seconds = now div 1000;
               rounded = seconds - js_rem seconds 30;
               signature = hmacSha256Hex secretKey (String_int rounded);
               filtered = filter (\<lambda>entry. toLowerCase (key entry) \<noteq> js ''client-key''
                                    \<and> toLowerCase (key entry) \<noteq> js ''authorization'') entries
           in filtered @ [\<lparr>key = js ''Authorization'',
                            value = MString (js ''TOTP '' @ signature)\<rparr>]))"

text \<open>Lower-casing of the letters A to Z, which is what \<^verbatim>\<open>toLowerCase\<close> does on ASCII text.\<close>

definition ascii_lower :: "jsstring \<Rightarrow> jsstring" where
  "ascii_lower s = map (\<lambda>c. if 0x41 \<le> c \<and> c \<le> 0x5A then c + 0x20 else c) s"

section \<open>The wire format, for reference\<close>

text \<open>
  Modelled from the spec: \<^verbatim>\<open>encodeVarint\<close> of section 4.1, which the repository does not
  have (its encoder writes a single length byte). Base 128, least significant group first,
  the continuation bit set on every byte but the last.
\<close>

fun encodeVarint :: "nat \<Rightarrow> byte list" where
  "encodeVarint n =
     (if n < 128 then [of_nat n] else of_nat (n mod 128 + 128) # encodeVarint (n div 128))"

declare encodeVarint.simps [simp del]

text \<open>
  Modelled from the spec: the \<^verbatim>\<open>WireField\<close> of section 3, a field number with a varint
  value or with a byte string, and its framing as the glossary gives it: a one-byte tag
  \<^verbatim>\<open>(fieldNumber << 3) | wireType\<close>, then the varint, or the varint of the length and the
  bytes. A field is in the range of this decoder when its number fits the one-byte tag and
  its value or length is below \<open>2\<^sup>3\<^sup>1\<close>.
\<close>

datatype WireField = Varint nat nat | LengthDelimited nat "byte list"

fun encodeField :: "WireField \<Rightarrow> byte list" where
  "encodeField (Varint fieldNumber n) = of_nat (fieldNumber * 8) # encodeVarint n"
| "encodeField (LengthDelimited fieldNumber data) =
     of_nat (fieldNumber * 8 + 2) # encodeVarint (length data) @ data"

definition encodeFields :: "WireField list \<Rightarrow> byte list" where
  "encodeFields fs = concat (map encodeField fs)"

fun in_range :: "WireField \<Rightarrow> bool" where
  "in_range (Varint fieldNumber n) = (fieldNumber < 32 \<and> n < 2 ^ 31)"
| "in_range (LengthDelimited fieldNumber data) = (fieldNumber < 32 \<and> length data < 2 ^ 31)"

text \<open>
  What section 4.3 of the spec records for a field: the value under the field number, and
  the projections of field 1 (status) and of fields 2, 4 and 5 (latency, error code, error
  message).
\<close>

definition recordVarint :: "nat \<Rightarrow> int \<Rightarrow> (rkey \<rightharpoonup> jsvalue) \<Rightarrow> (rkey \<rightharpoonup> jsvalue)" where
  "recordVarint fieldNumber v r =
     (if fieldNumber = 1 then r(FieldN fieldNumber \<mapsto> Num v, Status \<mapsto> Num v)
      else r(FieldN fieldNumber \<mapsto> Num v))"

definition recordString :: "nat \<Rightarrow> jsstring \<Rightarrow> (rkey \<rightharpoonup> jsvalue) \<Rightarrow> (rkey \<rightharpoonup> jsvalue)" where
  "recordString fieldNumber str r =
     (if fieldNumber = 2 then r(FieldN fieldNumber \<mapsto> Str str, Latency \<mapsto> Str str)
      else if fieldNumber = 4 then r(FieldN fieldNumber \<mapsto> Str str, Error_code \<mapsto> Str str)
      else if fieldNumber = 5 then r(FieldN fieldNumber \<mapsto> Str str, Error_message \<mapsto> Str str)
      else r(FieldN fieldNumber \<mapsto> Str str))"

fun recordField :: "(rkey \<rightharpoonup> jsvalue) \<Rightarrow> WireField \<Rightarrow> (rkey \<rightharpoonup> jsvalue)" where
  "recordField r (Varint fieldNumber n) = recordVarint fieldNumber (int n) r"
| "recordField r (LengthDelimited fieldNumber data) =
     recordString fieldNumber (utf8_string data) r"

text \<open>
  What the decoder records for a field of which only the first \<open>j\<close> bytes are in the buffer,
  \<open>0 < j\<close>: the varint groups that are present, or the payload bytes that are present (none
  when the length itself is cut).
\<close>

fun recordTruncated :: "(rkey \<rightharpoonup> jsvalue) \<Rightarrow> WireField \<Rightarrow> nat \<Rightarrow> (rkey \<rightharpoonup> jsvalue)" where
  "recordTruncated r (Varint fieldNumber n) j =
     recordVarint fieldNumber (int (n mod 128 ^ (j - 1))) r"
| "recordTruncated r (LengthDelimited fieldNumber data) j =
     recordString fieldNumber
       (utf8_string (take (j - 1 - length (encodeVarint (length data))) data)) r"

text \<open>A buffer whose only field has wire type 2 and a length that reads as \<open>-6\<close>.\<close>

definition hang :: "byte list" where
  "hang = [0x0a, 0xfa, 0xff, 0xff, 0xff, 0x0f]"

section \<open>Evaluating the decoder on a concrete buffer\<close>

lemmas run_defs = parseProtobufResponse_def initial_def parseLoop.simps parseStep_def
  buf_get_def readVarint.simps subarray_def adjustOffset_def

lemmas utf8_defs = toString_utf8_def utf8_string_def Buffer_from_utf8_def utf8_bytes_def code_units_def lone_def
  is_high_surrogate_def is_low_surrogate_def is_cont_def lower_bound_def upper_bound_def

section \<open>Status classification of a decoded response\<close>

lemma js_distinct:
  "js ''SERVING'' \<noteq> js ''NOT_SERVING''" "js ''SERVING'' \<noteq> js ''SERVICE_UNKNOWN''"
  "js ''SERVING'' \<noteq> js ''UNKNOWN''" "js ''NOT_SERVING'' \<noteq> js ''SERVICE_UNKNOWN''"
  "js ''NOT_SERVING'' \<noteq> js ''UNKNOWN''" "js ''SERVICE_UNKNOWN'' \<noteq> js ''UNKNOWN''"
  by (simp_all add: js_def)

text \<open>
  C9. The classification is SERVING exactly for 1 and "SERVING", NOT_SERVING exactly for 2
  and "NOT_SERVING", SERVICE_UNKNOWN exactly for 3 and "SERVICE_UNKNOWN", and UNKNOWN
  exactly for every other value (a missing status included); the serving flag is true
  exactly when the classification is SERVING; and the buffer 08 01 decodes to status 1,
  which is classified SERVING with the serving flag true.
\<close>

theorem status_classification:
  "(statusToString v = js ''SERVING'') = (v = Some (Num 1) \<or> v = Some (Str (js ''SERVING'')))
   \<and> (statusToString v = js ''NOT_SERVING'')
       = (v = Some (Num 2) \<or> v = Some (Str (js ''NOT_SERVING'')))
   \<and> (statusToString v = js ''SERVICE_UNKNOWN'')
       = (v = Some (Num 3) \<or> v = Some (Str (js ''SERVICE_UNKNOWN'')))
   \<and> (statusToString v = js ''UNKNOWN'')
       = (v \<notin> {Some (Num 1), Some (Str (js ''SERVING'')), Some (Num 2),
                Some (Str (js ''NOT_SERVING'')), Some (Num 3),
                Some (Str (js ''SERVICE_UNKNOWN''))})
   \<and> isServing v = (statusToString v = js ''SERVING'')
   \<and> (\<exists>res. parseProtobufResponse [0x08, 0x01] = Some res \<and> res Status = Some (Num 1)
          \<and> statusToString (res Status) = js ''SERVING'' \<and> isServing (res Status))"
proof -
  have run: "parseProtobufResponse [0x08, 0x01]
      = Some (Map.empty(FieldN 1 \<mapsto> Num 1, Status \<mapsto> Num 1))"
    by (simp add: run_defs)
  have cls: "statusToString (Some (Num 1)) = js ''SERVING''" "isServing (Some (Num 1))"
    by (simp_all add: statusToString_def isServing_def)
  show ?thesis
    using js_distinct js_distinct [symmetric]
    apply (intro conjI)
         apply (auto simp: statusToString_def isServing_def)[5]
    by (simp add: run cls)
qed

section \<open>The varint loop stays inside the buffer\<close>

lemma readVarint_reads:
  "set (vr_reads (readVarint buf off val shift reads))
     \<subseteq> set reads \<union> {i. off \<le> i \<and> i < int (length buf)}"
proof (induction buf off val shift reads rule: readVarint.induct)
  case (1 buf off val shift reads)
  show ?case
  proof (cases "off < int (length buf)")
    case False
    then show ?thesis by (simp add: readVarint.simps [of buf off])
  next
    case True
    show ?thesis
    proof (cases "buf_get buf off")
      case None
      with True show ?thesis by (simp add: readVarint.simps [of buf off])
    next
      case (Some b)
      show ?thesis
      proof (cases "b AND 0x80 = 0")
        case True
        with \<open>off < int (length buf)\<close> Some show ?thesis
          by (simp add: readVarint.simps [of buf off])
      next
        case False
        from 1 [OF True Some refl refl refl False]
        show ?thesis using True Some False
          by (subst readVarint.simps) (auto simp: Let_def)
      qed
    qed
  qed
qed

lemma readVarint_offset:
  "off \<le> vr_offset (readVarint buf off val shift reads)
   \<and> vr_offset (readVarint buf off val shift reads) \<le> max off (int (length buf))"
proof (induction buf off val shift reads rule: readVarint.induct)
  case (1 buf off val shift reads)
  show ?case
  proof (cases "off < int (length buf)")
    case False
    then show ?thesis by (simp add: readVarint.simps [of buf off])
  next
    case True
    show ?thesis
    proof (cases "buf_get buf off")
      case None
      with True show ?thesis by (simp add: readVarint.simps [of buf off])
    next
      case (Some b)
      show ?thesis
      proof (cases "b AND 0x80 = 0")
        case True
        with \<open>off < int (length buf)\<close> Some show ?thesis
          by (simp add: readVarint.simps [of buf off])
      next
        case False
        from 1 [OF True Some refl refl refl False]
        show ?thesis using True Some False
          by (subst (1 2) readVarint.simps) (auto simp: Let_def)
      qed
    qed
  qed
qed

lemma readVarint_unterminated:
  "0 \<le> off \<Longrightarrow> off \<le> int (length buf) \<Longrightarrow>
   (\<forall>i. nat off \<le> i \<and> i < length buf \<longrightarrow> buf ! i AND 0x80 \<noteq> 0) \<Longrightarrow>
   vr_offset (readVarint buf off val shift reads) = int (length buf)"
proof (induction buf off val shift reads rule: readVarint.induct)
  case (1 buf off val shift reads)
  show ?case
  proof (cases "off < int (length buf)")
    case False
    with 1(3) show ?thesis by (subst readVarint.simps) simp
  next
    case True
    with 1(2) have get: "buf_get buf off = Some (buf ! nat off)" by (simp add: buf_get_def)
    from True 1(2,4) have hi: "buf ! nat off AND 0x80 \<noteq> 0" by simp
    have "vr_offset (readVarint buf (off + 1) (val OR push_bit (shift mod 32) (ucast (buf ! nat off AND 0x7f))) (shift + 7) (reads @ [off])) = int (length buf)"
    proof (rule 1(1) [OF True get refl refl refl hi])
      show "0 \<le> off + 1" using 1(2) by simp
      show "off + 1 \<le> int (length buf)" using True by simp
      show "\<forall>i. nat (off + 1) \<le> i \<and> i < length buf \<longrightarrow> buf ! i AND 0x80 \<noteq> 0"
      proof (intro allI impI)
        fix i assume "nat (off + 1) \<le> i \<and> i < length buf"
        then have "nat off \<le> i \<and> i < length buf" by arith
        with 1(4) show "buf ! i AND 0x80 \<noteq> 0" by blast
      qed
    qed
    then show ?thesis using True get hi
      by (subst readVarint.simps) (simp add: Let_def)
  qed
qed

text \<open>
  C3. For every buffer, every starting offset and every state of the accumulator, each
  index at which the varint loop evaluates \<^verbatim>\<open>buffer[offset]\<close> is below the length of the
  buffer (and not below the starting offset), and the cursor it returns is not past the
  end of the buffer unless it started there; when no byte from the starting offset on has
  its high bit clear, the loop stops with the cursor exactly at the end of the buffer.
\<close>

theorem readVarint_in_bounds:
  "(\<forall>i \<in> set (vr_reads (readVarint buf off val shift [])). off \<le> i \<and> i < int (length buf))
   \<and> vr_offset (readVarint buf off val shift []) \<le> max off (int (length buf))
   \<and> (0 \<le> off \<and> off \<le> int (length buf)
        \<and> (\<forall>i. nat off \<le> i \<and> i < length buf \<longrightarrow> buf ! i AND 0x80 \<noteq> 0)
      \<longrightarrow> vr_offset (readVarint buf off val shift []) = int (length buf))"
proof -
  have "\<forall>i \<in> set (vr_reads (readVarint buf off val shift [])). off \<le> i \<and> i < int (length buf)"
    using readVarint_reads [of buf off val shift "[]"] by auto
  moreover have "vr_offset (readVarint buf off val shift []) \<le> max off (int (length buf))"
    using readVarint_offset [of off buf val shift "[]"] by simp
  moreover have "0 \<le> off \<and> off \<le> int (length buf)
        \<and> (\<forall>i. nat off \<le> i \<and> i < length buf \<longrightarrow> buf ! i AND 0x80 \<noteq> 0)
      \<longrightarrow> vr_offset (readVarint buf off val shift []) = int (length buf)"
    using readVarint_unterminated [of off buf val shift "[]"] by blast
  ultimately show ?thesis by blast
qed

theorem readVarint_in_bounds_witness:
  "vr_reads (readVarint [0x08, 0x81, 0x80] 1 0 0 []) = [1, 2]
   \<and> vr_offset (readVarint [0x08, 0x81, 0x80] 1 0 0 []) = int (length [0x08, 0x81, 0x80 :: byte])"
proof -
  let ?buf = "[0x08, 0x81, 0x80] :: byte list"
  have hi: "\<forall>i. nat 1 \<le> i \<and> i < length ?buf \<longrightarrow> ?buf ! i AND 0x80 \<noteq> 0"
  proof (intro allI impI)
    fix i :: nat
    assume "nat 1 \<le> i \<and> i < length ?buf"
    then have "i = 1 \<or> i = 2" by auto
    then show "?buf ! i AND 0x80 \<noteq> 0" by auto
  qed
  have "vr_offset (readVarint ?buf 1 0 0 []) = int (length ?buf)"
    using readVarint_in_bounds [of ?buf 1 0 0] hi by simp
  moreover have "vr_reads (readVarint ?buf 1 0 0 []) = [1, 2]"
    by (simp add: readVarint.simps buf_get_def)
  ultimately show ?thesis by simp
qed

section \<open>A buffer on which the decoder does not return\<close>

text \<open>
  The length of a wire type 2 field is read as a signed 32-bit number. In the buffer below
  it is \<open>-6\<close>, which moves the cursor from 6 back to 0, the tag that was just read.
\<close>

lemma hang_step:
  assumes "offset st = 0"
  shows "parseStep hang st = Next (st\<lparr>offset := 0, result := (result st)(FieldN 1 \<mapsto> Str [])\<rparr>)"
  using assms
  by (simp add: hang_def parseStep_def buf_get_def readVarint.simps subarray_def adjustOffset_def
      toString_utf8_def utf8_string_def)

lemma hang_loop:
  assumes "parseLoop hang st = Some y"
  shows "offset st \<noteq> 0"
proof -
  have "hang = hang \<longrightarrow> offset st \<noteq> 0"
  proof (rule parseLoop.raw_induct [where P = "\<lambda>b s y. b = hang \<longrightarrow> offset s \<noteq> 0", OF _ assms])
    fix f b s r
    assume IH: "\<And>b' s' r'. f b' s' = Some r' \<Longrightarrow> b' = hang \<longrightarrow> offset s' \<noteq> 0"
      and body: "(if offset s < int (length b)
                  then case parseStep b s of Break st' \<Rightarrow> Some st' | Next st' \<Rightarrow> f b st'
                  else Some s) = Some r"
    show "b = hang \<longrightarrow> offset s \<noteq> 0"
    proof (intro impI notI)
      assume b: "b = hang" and z: "offset s = 0"
      have "0 < int (length hang)" by (simp add: hang_def)
      with body b z
      have "f hang (s\<lparr>offset := 0, result := (result s)(FieldN 1 \<mapsto> Str [])\<rparr>) = Some r"
        by (simp add: hang_step)
      from IH [OF this] show False by simp
    qed
  qed
  then show ?thesis by simp
qed

text \<open>
  C10. The claim fails on the code. On the buffer 0a fa ff ff ff 0f one iteration of the
  loop started at offset 0 ends at offset 0 again: the cursor does not increase, and the
  decoder never returns.
\<close>

theorem decode_does_not_return:
  "parseStep [0x0a, 0xfa, 0xff, 0xff, 0xff, 0x0f] initial
     = Next \<lparr>offset = 0, result = Map.empty(FieldN 1 \<mapsto> Str []), warnings = []\<rparr>
   \<and> parseProtobufResponse [0x0a, 0xfa, 0xff, 0xff, 0xff, 0x0f] = None"
proof -
  have "parseStep hang initial
     = Next \<lparr>offset = 0, result = Map.empty(FieldN 1 \<mapsto> Str []), warnings = []\<rparr>"
    by (simp add: hang_step initial_def)
  moreover have "parseLoop hang initial = None"
  proof (cases "parseLoop hang initial")
    case None
    then show ?thesis .
  next
    case (Some y)
    from hang_loop [OF this] show ?thesis by (simp add: initial_def)
  qed
  ultimately show ?thesis by (simp add: parseProtobufResponse_def hang_def)
qed

section \<open>The length byte of the request encoder\<close>

lemma code_points_plain:
  "\<forall>c \<in> set s. \<not> is_high_surrogate c \<and> \<not> is_low_surrogate c \<Longrightarrow> code_points s = s"
  by (induction s rule: code_points.induct) (simp_all add: lone_def)

lemma Buffer_from_utf8_a: "Buffer_from_utf8 (replicate n 0x61) = replicate n 0x61"
proof -
  have "code_points (replicate n 97) = replicate n 97"
    by (rule code_points_plain) (simp add: is_high_surrogate_def is_low_surrogate_def)
  moreover have "concat (map utf8_bytes (replicate n 97)) = replicate n 97"
    by (induction n) (simp_all add: utf8_bytes_def)
  ultimately show ?thesis by (simp add: Buffer_from_utf8_def)
qed

text \<open>
  C2. The claim fails on the code for a service name of 128 bytes or more. For the name
  made of 128 letters a, the encoder writes the tag 0a, the single byte 80, and the 128
  bytes of the name; the varint of the length 128 is the two bytes 80 01.
\<close>

theorem requestSerialize_long_service:
  "requestSerialize (Some (replicate 128 0x61)) = [0x0a, 0x80] @ replicate 128 0x61
   \<and> encodeVarint (length (Buffer_from_utf8 (replicate 128 0x61))) = [0x80, 0x01]"
proof -
  let ?s = "replicate 128 0x61 :: jsstring"
  have len: "length (Buffer_from_utf8 ?s) = 128"
    by (simp only: Buffer_from_utf8_a length_replicate)
  have ne: "length ?s \<noteq> 0"
    by (simp only: length_replicate)
  have hd: "(of_nat (length (Buffer_from_utf8 ?s)) :: byte) = 0x80"
    by (simp only: len) simp
  have "requestSerialize (Some ?s) = [0x0a, 0x80] @ Buffer_from_utf8 ?s"
    unfolding requestSerialize_def Let_def option.case using ne hd by (simp only: if_False)
  moreover have "encodeVarint (128 :: nat) = [0x80, 0x01]"
    by (simp add: encodeVarint.simps)
  ultimately show ?thesis
    by (simp only: Buffer_from_utf8_a length_replicate simp_thms)
qed

section \<open>Payloads that are not UTF-8\<close>

text \<open>
  C7. The claim fails on the code for a payload that is not valid UTF-8. The buffer
  12 01 ff holds field 2 with the one-byte payload ff; the decoder records the string
  U+FFFD under field 2 (and as the latency), not the byte ff.
\<close>

theorem invalid_utf8_payload_becomes_string:
  "parseProtobufResponse [0x12, 0x01, 0xff]
     = Some (Map.empty(FieldN 2 \<mapsto> Str [0xFFFD], Latency \<mapsto> Str [0xFFFD]))"
  by (simp add: run_defs utf8_defs)

section \<open>The metadata transform with a client key\<close>

lemma find_hd_filter:
  "\<exists>x \<in> set xs. P x \<Longrightarrow> List.find P xs = Some (hd (filter P xs))"
  by (induction xs) auto

lemma rounded_window30: "seconds - js_rem seconds 30 = window30 seconds"
proof (cases "0 \<le> seconds")
  case True
  then have "js_rem seconds 30 = seconds mod 30"
    by (cases "seconds = 0") (simp_all add: js_rem_def sgn_if)
  with True show ?thesis by (simp add: window30_def minus_mod_eq_mult_div)
next
  case False
  then have "js_rem seconds 30 = - ((- seconds) mod 30)"
    by (simp add: js_rem_def sgn_if)
  moreover have "(- seconds) - (- seconds) mod 30 = 30 * ((- seconds) div 30)"
    by (simp add: minus_mod_eq_mult_div)
  ultimately show ?thesis using False by (simp add: window30_def)
qed

text \<open>
  C8. When some entry has a key that lower-cases to "client-key", the transform returns the
  entries whose key lower-cases neither to "client-key" nor to "authorization", in their
  order, followed by the one entry with key "Authorization" and value "TOTP " followed by
  the signature: the HMAC-SHA256 hex digest, keyed by the string of the value of the first
  client-key entry, of the decimal string of the current time in seconds rounded to a
  multiple of 30. The digest is the platform's function, here a parameter, and its 64
  hexadecimal characters are the platform's; so are the lower-casing and the clock.
\<close>

theorem applyClientKeyAuthorization_client_key:
  assumes "\<exists>e \<in> set entries. toLowerCase (key e) = js ''client-key''"
  shows "applyClientKeyAuthorization toLowerCase numberToString hmacSha256Hex now entries
     = filter (\<lambda>e. toLowerCase (key e) \<noteq> js ''client-key''
                  \<and> toLowerCase (key e) \<noteq> js ''authorization'') entries
       @ [\<lparr>key = js ''Authorization'',
           value = MString (js ''TOTP '' @ hmacSha256Hex
             (String_of numberToString
                (value (hd (filter (\<lambda>e. toLowerCase (key e) = js ''client-key'') entries))))
             (String_int (window30 (now div 1000))))\<rparr>]"
  by (simp add: applyClientKeyAuthorization_def find_hd_filter [OF assms] rounded_window30
      Let_def)

theorem applyClientKeyAuthorization_client_key_witness:
  "\<forall>hmac. applyClientKeyAuthorization ascii_lower (\<lambda>n :: nat. []) hmac 1730505615000
      [\<lparr>key = js ''client-key'', value = MString (js ''s3cr3t'')\<rparr>,
       \<lparr>key = js ''Authorization'', value = MString (js ''Bearer old'')\<rparr>]
     = [\<lparr>key = js ''Authorization'',
         value = MString (js ''TOTP '' @ hmac (js ''s3cr3t'') (js ''1730505600''))\<rparr>]"
proof
  fix hmac :: "jsstring \<Rightarrow> jsstring \<Rightarrow> jsstring"
  let ?entries = "[\<lparr>key = js ''client-key'', value = MString (js ''s3cr3t'')\<rparr>,
       \<lparr>key = js ''Authorization'', value = MString (js ''Bearer old'')\<rparr>]
       :: nat MetadataItem list"
  have ex: "\<exists>e \<in> set ?entries. ascii_lower (key e) = js ''client-key''"
    by (simp add: ascii_lower_def js_def)
  have t: "String_int 1730505600 = js ''1730505600''"
    by (simp add: String_int_def digits.simps js_def)
  show "applyClientKeyAuthorization ascii_lower (\<lambda>n :: nat. []) hmac 1730505615000 ?entries
     = [\<lparr>key = js ''Authorization'',
         value = MString (js ''TOTP '' @ hmac (js ''s3cr3t'') (js ''1730505600''))\<rparr>]"
    unfolding applyClientKeyAuthorization_client_key [OF ex]
    by (simp add: window30_def t) (simp add: ascii_lower_def js_def String_of_def)
qed

section \<open>Bytes as numbers\<close>

lemma and_7f: "(b AND 0x7f :: byte) = take_bit 7 b"
proof -
  have "(0x7f :: byte) = mask 7" by (simp add: mask_eq_exp_minus_1)
  then show ?thesis by (simp add: take_bit_eq_mask)
qed

lemma unat_and_7f: "unat (b AND 0x7f :: byte) = unat b mod 128"
  by (simp add: and_7f unsigned_take_bit_eq take_bit_eq_mod unat_mod_distrib)

lemma and_07: "(b AND 0x07 :: byte) = take_bit 3 b"
proof -
  have "(0x07 :: byte) = mask 3" by (simp add: mask_eq_exp_minus_1)
  then show ?thesis by (simp add: take_bit_eq_mask)
qed

lemma unat_and_07: "unat (b AND 0x07 :: byte) = unat b mod 8"
  by (simp add: and_07 unsigned_take_bit_eq take_bit_eq_mod unat_mod_distrib)

lemma unat_drop_3: "unat (drop_bit 3 tag) = unat tag div 8" for tag :: byte
  by (simp add: unat_drop_bit_eq drop_bit_eq_div unat_div_distrib)

lemma and_80: "(b AND 0x80 = 0) = (unat b < 128)" for b :: byte
proof -
  have "(0x80 :: byte) = 2 ^ 7" by simp
  then have "(b AND 0x80 = 0) = (\<not> bit b 7)"
    by (simp only: and_exp_eq_0_iff_not_bit)
  also have "bit b 7 = bit (unat b) 7"
    by (simp add: bit_unsigned_iff)
  also have "\<dots> = odd (unat b div 128)"
    by (simp add: bit_iff_odd)
  also have "(\<not> odd (unat b div 128)) = (unat b < 128)"
  proof -
    have "unat b < 256" using unsigned_less [of b] by simp
    show ?thesis
    proof (cases "unat b < 128")
      case True
      then show ?thesis by simp
    next
      case False
      with \<open>unat b < 256\<close> have "unat b div 128 = 1" by simp
      with False show ?thesis by simp
    qed
  qed
  finally show ?thesis .
qed

lemma ucast_byte: "(ucast (x::byte) :: 32 word) = of_nat (unat x)"
  by simp

lemma or_push_bit_nat: "v < 2 ^ s \<Longrightarrow> v OR push_bit s w = v + push_bit s w" for v :: nat
proof (rule disjunctive_add [symmetric])
  fix n
  assume v: "v < 2 ^ s"
  show "\<not> bit v n \<or> \<not> bit (push_bit s w) n"
  proof (cases "s \<le> n")
    case True
    then have "(2::nat) ^ s \<le> 2 ^ n" by simp
    with v have "v < 2 ^ n" by linarith
    then have "v div 2 ^ n = 0" by simp
    then show ?thesis by (simp add: bit_iff_odd)
  next
    case False
    then show ?thesis by (simp add: bit_push_bit_iff)
  qed
qed

lemma sint_of_nat_small: "n < 2 ^ 31 \<Longrightarrow> sint (of_nat n :: 32 word) = int n"
proof -
  assume "n < 2 ^ 31"
  then have "int n < 2 ^ 31" by (metis of_nat_less_iff of_nat_numeral of_nat_power)
  then have "signed_take_bit 31 (int n) = int n"
    by (intro signed_take_bit_int_eq_self) simp_all
  then show ?thesis by (simp add: signed_of_nat)
qed

lemma unat_of_nat_byte: "n < 256 \<Longrightarrow> unat (of_nat n :: byte) = n"
  by (simp add: unat_of_nat)

section \<open>Decoding a varint that was encoded\<close>

lemma buf_get_append: "buf_get (pre @ b # suf) (int (length pre)) = Some b"
  by (simp add: buf_get_def)

lemma readVarint_step:
  assumes "buf_get buf off = Some b"
  shows "readVarint buf off val shift reads =
     (if unat b < 128
      then \<lparr>vr_offset = off + 1,
            vr_value = val OR push_bit (shift mod 32) (of_nat (unat b mod 128)),
            vr_reads = reads @ [off]\<rparr>
      else readVarint buf (off + 1) (val OR push_bit (shift mod 32) (of_nat (unat b mod 128)))
             (shift + 7) (reads @ [off]))"
proof -
  from assms have "off < int (length buf)"
    by (simp add: buf_get_def split: if_splits)
  moreover have "(ucast (b AND 0x7f) :: 32 word) = of_nat (unat b mod 128)"
    by (simp only: ucast_byte unat_and_7f)
  ultimately show ?thesis
    using assms by (subst readVarint.simps) (simp add: Let_def and_80)
qed

lemma varint_step_word:
  assumes "v < 2 ^ shift" and "v + w * 2 ^ shift < 2 ^ 32"
  shows "(of_nat v :: 32 word) OR push_bit (shift mod 32) (of_nat w) = of_nat (v + w * 2 ^ shift)"
proof (cases "w = 0")
  case True
  then show ?thesis by simp
next
  case False
  then have "(2::nat) ^ shift \<le> w * 2 ^ shift" by simp
  with assms(2) have "(2::nat) ^ shift < 2 ^ 32" by linarith
  then have "shift < 32" using power_less_imp_less_exp [of 2 shift 32] by simp
  then have "shift mod 32 = shift" by simp
  moreover have "(of_nat v :: 32 word) OR push_bit shift (of_nat w) = of_nat (v OR push_bit shift w)"
    by (simp only: of_nat_or_eq of_nat_push_bit)
  moreover have "v OR push_bit shift w = v + w * 2 ^ shift"
    using or_push_bit_nat [OF assms(1), of w] by (simp add: push_bit_eq_mult)
  ultimately show ?thesis by simp
qed

lemma readVarint_encodeVarint_gen:
  "v < 2 ^ shift \<Longrightarrow> v + m * 2 ^ shift < 2 ^ 32 \<Longrightarrow>
   vr_offset (readVarint (pre @ encodeVarint m @ suf) (int (length pre)) (of_nat v) shift reads)
     = int (length pre) + int (length (encodeVarint m))
   \<and> vr_value (readVarint (pre @ encodeVarint m @ suf) (int (length pre)) (of_nat v) shift reads)
     = of_nat (v + m * 2 ^ shift)"
proof (induction m arbitrary: pre v shift reads rule: encodeVarint.induct)
  case (1 m)
  show ?case
  proof (cases "m < 128")
    case True
    then have enc: "encodeVarint m = [of_nat m]" by (simp add: encodeVarint.simps)
    from True have u: "unat (of_nat m :: byte) = m" by (simp add: unat_of_nat_byte)
    have g: "buf_get (pre @ encodeVarint m @ suf) (int (length pre)) = Some (of_nat m)"
      by (simp add: enc buf_get_append)
    show ?thesis
      using True varint_step_word [OF "1.prems"]
      by (simp add: readVarint_step [OF g] u) (simp add: enc)
  next
    case False
    let ?b = "of_nat (m mod 128 + 128) :: byte"
    from False have enc: "encodeVarint m = ?b # encodeVarint (m div 128)"
      by (subst encodeVarint.simps) simp
    have u: "unat ?b = m mod 128 + 128" by (rule unat_of_nat_byte) simp
    have g: "buf_get (pre @ encodeVarint m @ suf) (int (length pre)) = Some ?b"
      by (simp add: enc buf_get_append)
    let ?v = "v + m mod 128 * 2 ^ shift"
    have split: "v + m * 2 ^ shift = ?v + m div 128 * 2 ^ (shift + 7)"
    proof -
      have "m * 2 ^ shift = (m div 128 * 128 + m mod 128) * 2 ^ shift"
        by (simp only: div_mult_mod_eq)
      also have "\<dots> = m div 128 * 2 ^ (shift + 7) + m mod 128 * 2 ^ shift"
      proof -
        have "(q * 128 + r) * 2 ^ shift = q * 2 ^ (shift + 7) + r * 2 ^ shift" for q r :: nat
          by (simp add: algebra_simps power_add)
        then show ?thesis .
      qed
      finally show ?thesis by simp
    qed
    have v1: "?v < 2 ^ (shift + 7)"
    proof -
      have "m mod 128 * 2 ^ shift \<le> 127 * 2 ^ shift" by simp
      with "1.prems"(1) have "?v < 128 * 2 ^ shift" by linarith
      then show ?thesis by (simp add: power_add)
    qed
    have v2: "?v + m div 128 * 2 ^ (shift + 7) < 2 ^ 32"
      using "1.prems"(2) split by simp
    have v3: "?v < 2 ^ 32" using v2 by linarith
    have w: "(of_nat v :: 32 word) OR push_bit (shift mod 32) (of_nat (m mod 128)) = of_nat ?v"
      using varint_step_word [OF "1.prems"(1), of "m mod 128"] v3 by simp
    have l: "int (length (pre @ [?b])) = int (length pre) + 1" by simp
    have b: "pre @ encodeVarint m @ suf = (pre @ [?b]) @ encodeVarint (m div 128) @ suf"
      by (simp add: enc)
    have IH: "vr_offset (readVarint ((pre @ [?b]) @ encodeVarint (m div 128) @ suf)
                  (int (length (pre @ [?b]))) (of_nat ?v) (shift + 7) (reads @ [int (length pre)]))
        = int (length (pre @ [?b])) + int (length (encodeVarint (m div 128)))
      \<and> vr_value (readVarint ((pre @ [?b]) @ encodeVarint (m div 128) @ suf)
                  (int (length (pre @ [?b]))) (of_nat ?v) (shift + 7) (reads @ [int (length pre)]))
        = of_nat (?v + m div 128 * 2 ^ (shift + 7))"
      by (rule "1.IH" [OF False v1 v2])
    have "readVarint (pre @ encodeVarint m @ suf) (int (length pre)) (of_nat v) shift reads
        = readVarint ((pre @ [?b]) @ encodeVarint (m div 128) @ suf)
                  (int (length (pre @ [?b]))) (of_nat ?v) (shift + 7) (reads @ [int (length pre)])"
    proof -
      have hb: "\<not> unat ?b < 128" and m128: "unat ?b mod 128 = m mod 128"
        by (simp_all only: u) simp_all
      show ?thesis
        by (simp only: readVarint_step [OF g] hb if_False m128 w l flip: b)
    qed
    with IH show ?thesis
      by (simp only: split) (simp add: enc)
  qed
qed

lemma readVarint_encodeVarint:
  assumes "n < 2 ^ 31"
  shows "vr_offset (readVarint (pre @ encodeVarint n @ suf) (int (length pre)) 0 0 [])
           = int (length pre) + int (length (encodeVarint n))"
    and "sint (vr_value (readVarint (pre @ encodeVarint n @ suf) (int (length pre)) 0 0 [])) = int n"
proof -
  from assms have "n < 2 ^ 32" by simp
  then have *: "(0::nat) + n * 2 ^ 0 < 2 ^ 32" by simp
  from readVarint_encodeVarint_gen [OF _ *, of pre suf "[]"]
  show "vr_offset (readVarint (pre @ encodeVarint n @ suf) (int (length pre)) 0 0 [])
           = int (length pre) + int (length (encodeVarint n))"
    and "sint (vr_value (readVarint (pre @ encodeVarint n @ suf) (int (length pre)) 0 0 [])) = int n"
    using assms by (simp_all add: sint_of_nat_small)
qed

text \<open>
  C4, as the code has it. The accumulator is a signed 32-bit number, so the bound is
  \<open>2\<^sup>3\<^sup>1\<close>: for every \<open>n\<close> below it, the varint loop started at the first byte of the
  encoding of \<open>n\<close>, wherever it stands in the buffer, returns \<open>n\<close> and leaves the cursor
  right after the encoding.
\<close>

theorem varint_decodes_below_2_31:
  assumes "n < 2 ^ 31"
  shows "sint (vr_value (readVarint (pre @ encodeVarint n @ suf) (int (length pre)) 0 0 []))
           = int n
     \<and> vr_offset (readVarint (pre @ encodeVarint n @ suf) (int (length pre)) 0 0 [])
           = int (length pre) + int (length (encodeVarint n))"
  using readVarint_encodeVarint [OF assms, of pre suf] by simp

theorem varint_decodes_below_2_31_witness:
  "(300 :: nat) < 2 ^ 31 \<and> encodeVarint 300 = [0xac, 0x02]
   \<and> sint (vr_value (readVarint [0x08, 0xac, 0x02, 0x10] 1 0 0 [])) = 300
   \<and> vr_offset (readVarint [0x08, 0xac, 0x02, 0x10] 1 0 0 []) = 3"
proof -
  have e: "encodeVarint 300 = [0xac, 0x02]"
    by (simp add: encodeVarint.simps)
  have "(300 :: nat) < 2 ^ 31" by simp
  from varint_decodes_below_2_31 [OF this, of "[0x08]" "[0x10]"] e
  show ?thesis by simp
qed

text \<open>
  The claim as stated fails at \<open>2\<^sup>3\<^sup>2 - 1\<close>, a value below \<open>2\<^sup>6\<^sup>4\<close>: its encoding
  ff ff ff ff 0f decodes to \<open>-1\<close>. The bound \<open>2\<^sup>3\<^sup>1\<close> is the first value that fails.
\<close>

theorem varint_2_32_minus_1_counterexample:
  "(2 ^ 32 - 1 :: nat) < 2 ^ 64
   \<and> encodeVarint (2 ^ 32 - 1) = [0xff, 0xff, 0xff, 0xff, 0x0f]
   \<and> sint (vr_value (readVarint (encodeVarint (2 ^ 32 - 1)) 0 0 0 [])) = - 1
   \<and> sint (vr_value (readVarint (encodeVarint (2 ^ 32 - 1)) 0 0 0 [])) \<noteq> int (2 ^ 32 - 1)
   \<and> sint (vr_value (readVarint (encodeVarint (2 ^ 31)) 0 0 0 [])) = - (2 ^ 31)"
  by (simp add: encodeVarint.simps readVarint.simps buf_get_def)

section \<open>UTF-8 encoding followed by decoding\<close>














section \<open>Decoding a sequence of complete fields\<close>

lemma tag_parts:
  assumes "fn < 32" and "wt < 8"
  shows "unat (drop_bit 3 (of_nat (fn * 8 + wt) :: byte)) = fn"
    and "unat ((of_nat (fn * 8 + wt) :: byte) AND 0x07) = wt"
proof -
  from assms have "fn * 8 + wt < 256" by simp
  then have u: "unat (of_nat (fn * 8 + wt) :: byte) = fn * 8 + wt"
    by (rule unat_of_nat_byte)
  show "unat (drop_bit 3 (of_nat (fn * 8 + wt) :: byte)) = fn"
    using assms by (simp only: unat_drop_3 u; simp)
  show "unat ((of_nat (fn * 8 + wt) :: byte) AND 0x07) = wt"
    using assms by (simp only: unat_and_07 u; simp)
qed

lemma step_varint:
  assumes "buf_get buf (offset st) = Some (of_nat (fn * 8))" and "fn < 32"
  shows "parseStep buf st =
     Next (st\<lparr>offset := vr_offset (readVarint buf (offset st + 1) 0 0 []),
              result := recordVarint fn (sint (vr_value (readVarint buf (offset st + 1) 0 0 [])))
                          (result st)\<rparr>)"
  using assms tag_parts [of fn 0]
  by (simp add: parseStep_def Let_def recordVarint_def)

lemma step_string:
  assumes "buf_get buf (offset st) = Some (of_nat (fn * 8 + 2))" and "fn < 32"
  shows "parseStep buf st =
     (let r = readVarint buf (offset st + 1) 0 0 [];
          len = sint (vr_value r)
      in Next (st\<lparr>offset := vr_offset r + len,
                 result := recordString fn
                   (utf8_string (subarray buf (vr_offset r) (vr_offset r + len))) (result st)\<rparr>))"
  using assms tag_parts [of fn 2]
  by (simp add: parseStep_def Let_def recordString_def toString_utf8_def)

lemma subarray_take:
  "subarray (pre @ rest) (int (length pre)) (int (length pre) + int n) = take n rest"
  by (simp add: subarray_def adjustOffset_def Let_def min_def)

lemma loop_next:
  "offset st < int (length buf) \<Longrightarrow> parseStep buf st = Next st' \<Longrightarrow>
   parseLoop buf st = parseLoop buf st'"
  by (subst parseLoop.simps) simp

lemma loop_end: "int (length buf) \<le> offset st \<Longrightarrow> parseLoop buf st = Some st"
  by (subst parseLoop.simps) simp


lemma field_step:
  assumes "in_range f" and "offset st = int (length pre)"
  shows "parseStep (pre @ encodeField f @ suf) st =
     Next (st\<lparr>offset := int (length pre) + int (length (encodeField f)),
              result := recordField (result st) f\<rparr>)"
proof (cases f)
  case (Varint fn n)
  with assms(1) have fn: "fn < 32" and n: "n < 2 ^ 31" by simp_all
  let ?tag = "of_nat (fn * 8) :: byte"
  let ?buf = "pre @ encodeField f @ suf"
  have buf: "?buf = (pre @ [?tag]) @ encodeVarint n @ suf" by (simp add: Varint)
  have g: "buf_get ?buf (offset st) = Some ?tag"
    by (simp add: Varint assms(2) buf_get_append)
  have l: "offset st + 1 = int (length (pre @ [?tag]))" by (simp add: assms(2))
  have rv: "readVarint ?buf (offset st + 1) 0 0 []
      = readVarint ((pre @ [?tag]) @ encodeVarint n @ suf) (int (length (pre @ [?tag]))) 0 0 []"
    by (simp only: l buf)
  show ?thesis
    by (simp only: step_varint [OF g fn] rv readVarint_encodeVarint [OF n])
       (simp add: Varint)
next
  case (LengthDelimited fn data)
  with assms(1) have fn: "fn < 32" and n: "length data < 2 ^ 31" by simp_all
  let ?tag = "of_nat (fn * 8 + 2) :: byte"
  let ?buf = "pre @ encodeField f @ suf"
  let ?pre = "pre @ [?tag]"
  have buf: "?buf = ?pre @ encodeVarint (length data) @ (data @ suf)"
    by (simp add: LengthDelimited)
  have g: "buf_get ?buf (offset st) = Some ?tag"
    by (simp add: LengthDelimited assms(2) buf_get_append)
  have l: "offset st + 1 = int (length ?pre)" by (simp add: assms(2))
  have sub: "subarray (?pre @ encodeVarint (length data) @ (data @ suf))
      (int (length ?pre) + int (length (encodeVarint (length data))))
      (int (length ?pre) + int (length (encodeVarint (length data))) + int (length data)) = data"
    using subarray_take [of "?pre @ encodeVarint (length data)" "data @ suf" "length data"]
    by (simp add: ac_simps)
  have rv: "readVarint ?buf (offset st + 1) 0 0 []
      = readVarint (?pre @ encodeVarint (length data) @ (data @ suf)) (int (length ?pre)) 0 0 []"
    by (simp only: l buf)
  have "parseStep ?buf st = Next (st\<lparr>offset :=
          int (length ?pre) + int (length (encodeVarint (length data))) + int (length data),
        result := recordString fn (utf8_string (subarray ?buf
          (int (length ?pre) + int (length (encodeVarint (length data))))
          (int (length ?pre) + int (length (encodeVarint (length data))) + int (length data))))
          (result st)\<rparr>)"
    by (simp only: step_string [OF g fn] Let_def rv readVarint_encodeVarint [OF n])
  also have "subarray ?buf
          (int (length ?pre) + int (length (encodeVarint (length data))))
          (int (length ?pre) + int (length (encodeVarint (length data))) + int (length data))
       = data"
    by (simp only: buf sub)
  finally show ?thesis by (simp add: LengthDelimited)
qed

lemma encodeField_nonempty: "0 < length (encodeField f)"
  by (cases f) simp_all

lemma loop_fields:
  assumes "list_all in_range fs" and "offset st = int (length pre)"
  shows "parseLoop (pre @ encodeFields fs @ suf) st
     = parseLoop (pre @ encodeFields fs @ suf)
         (st\<lparr>offset := int (length pre) + int (length (encodeFields fs)),
             result := foldl recordField (result st) fs\<rparr>)"
  using assms
proof (induction fs arbitrary: pre st)
  case Nil
  from Nil.prems(2) [symmetric] show ?case by (simp add: encodeFields_def)
next
  case (Cons f fs)
  from Cons.prems have f: "in_range f" and fs: "list_all in_range fs" by simp_all
  let ?buf = "pre @ encodeFields (f # fs) @ suf"
  let ?st1 = "st\<lparr>offset := int (length pre) + int (length (encodeField f)),
                   result := recordField (result st) f\<rparr>"
  have buf: "?buf = pre @ encodeField f @ (encodeFields fs @ suf)"
    and buf': "?buf = (pre @ encodeField f) @ encodeFields fs @ suf"
    by (simp_all add: encodeFields_def)
  have "int (length ?buf) = int (length pre) + int (length (encodeField f))
      + int (length (encodeFields fs @ suf))"
    by (simp add: encodeFields_def)
  then have lt: "offset st < int (length ?buf)"
    using encodeField_nonempty [of f] Cons.prems(2) by linarith
  have "parseLoop ?buf st = parseLoop ?buf ?st1"
    by (rule loop_next [OF lt]) (simp only: buf field_step [OF f Cons.prems(2)])
  also have "\<dots> = parseLoop ?buf
       (?st1\<lparr>offset := int (length (pre @ encodeField f)) + int (length (encodeFields fs)),
             result := foldl recordField (result ?st1) fs\<rparr>)"
    unfolding buf' by (rule Cons.IH [OF fs]) simp
  finally show ?case by (simp add: encodeFields_def ac_simps)
qed

lemma parse_fields:
  assumes "list_all in_range fs"
  shows "parseLoop (encodeFields fs) initial
     = Some \<lparr>offset = int (length (encodeFields fs)),
             result = foldl recordField Map.empty fs, warnings = []\<rparr>"
proof -
  have "parseLoop ([] @ encodeFields fs @ []) initial
      = parseLoop ([] @ encodeFields fs @ [])
          (initial\<lparr>offset := int (length ([] :: byte list)) + int (length (encodeFields fs)),
                   result := foldl recordField (result initial) fs\<rparr>)"
    by (rule loop_fields [OF assms]) (simp add: initial_def)
  then show ?thesis by (simp add: loop_end) (simp add: initial_def)
qed

section \<open>Unknown wire types\<close>

lemma unknown_step:
  assumes "buf_get buf (offset st) = Some tag"
    and "unat (tag AND 0x07) \<noteq> 0" and "unat (tag AND 0x07) \<noteq> 2"
  shows "parseStep buf st
     = Next (st\<lparr>warnings := warnings st @ [(unat (tag AND 0x07), offset st)],
                offset := int (length buf)\<rparr>)"
  using assms by (simp add: parseStep_def)

lemma unknown_loop:
  assumes "buf_get buf (offset st) = Some tag"
    and "unat (tag AND 0x07) \<noteq> 0" and "unat (tag AND 0x07) \<noteq> 2"
  shows "parseLoop buf st
     = Some (st\<lparr>warnings := warnings st @ [(unat (tag AND 0x07), offset st)],
                offset := int (length buf)\<rparr>)"
proof -
  from assms(1) have "offset st < int (length buf)"
    by (simp add: buf_get_def split: if_splits)
  then show ?thesis
    by (simp add: loop_next [OF _ unknown_step [OF assms]] loop_end)
qed

text \<open>
  C6. When the loop stands at a tag whose wire type is neither 0 nor 2, decoding returns at
  once: the wire type and the offset of the tag are added to the warnings, the result is
  the one built from the fields before the tag, unchanged, and the cursor is at the end of
  the buffer, so no byte after the tag is read as a field. In particular, when such a tag
  follows a sequence of complete fields, the result is the one of these fields, whatever
  bytes follow the tag.
\<close>

theorem unknown_wire_type_halts:
  assumes "unat (tag AND 0x07) \<noteq> 0" and "unat (tag AND 0x07) \<noteq> 2"
  shows "(buf_get buf (offset st) = Some tag \<longrightarrow>
            parseLoop buf st
              = Some (st\<lparr>warnings := warnings st @ [(unat (tag AND 0x07), offset st)],
                         offset := int (length buf)\<rparr>))
     \<and> (list_all in_range fs \<longrightarrow>
            parseLoop (encodeFields fs @ tag # rest) initial
              = Some \<lparr>offset = int (length (encodeFields fs @ tag # rest)),
                      result = foldl recordField Map.empty fs,
                      warnings = [(unat (tag AND 0x07), int (length (encodeFields fs)))]\<rparr>)"
proof (intro conjI impI)
  assume "buf_get buf (offset st) = Some tag"
  then show "parseLoop buf st
      = Some (st\<lparr>warnings := warnings st @ [(unat (tag AND 0x07), offset st)],
                 offset := int (length buf)\<rparr>)"
    using assms by (rule unknown_loop)
next
  assume fs: "list_all in_range fs"
  let ?buf = "encodeFields fs @ tag # rest"
  let ?st1 = "initial\<lparr>offset := int (length ([] :: byte list)) + int (length (encodeFields fs)),
                       result := foldl recordField (result initial) fs\<rparr>"
  have "parseLoop ([] @ encodeFields fs @ tag # rest) initial
      = parseLoop ([] @ encodeFields fs @ tag # rest) ?st1"
    by (rule loop_fields [OF fs]) (simp add: initial_def)
  moreover have "buf_get ?buf (offset ?st1) = Some tag"
    by (simp add: buf_get_append)
  ultimately show "parseLoop ?buf initial
      = Some \<lparr>offset = int (length ?buf), result = foldl recordField Map.empty fs,
              warnings = [(unat (tag AND 0x07), int (length (encodeFields fs)))]\<rparr>"
    using unknown_loop [OF _ assms, of ?buf ?st1] by (simp add: initial_def)
qed

theorem unknown_wire_type_halts_witness:
  "unat (0x0d AND 0x07 :: byte) = 5
   \<and> encodeFields [Varint 1 1] @ 0x0d # [0x08, 0x02] = [0x08, 0x01, 0x0d, 0x08, 0x02]
   \<and> parseLoop [0x08, 0x01, 0x0d, 0x08, 0x02] initial
       = Some \<lparr>offset = 5, result = Map.empty(FieldN 1 \<mapsto> Num 1, Status \<mapsto> Num 1),
               warnings = [(5, 2)]\<rparr>"
proof -
  have wt: "unat (0x0d AND 0x07 :: byte) = 5"
    by simp
  have buf: "encodeFields [Varint 1 1] @ 0x0d # [0x08, 0x02] = [0x08, 0x01, 0x0d, 0x08, 0x02]"
    by (simp add: encodeFields_def encodeVarint.simps)
  have "unat (0x0d AND 0x07 :: byte) \<noteq> 0" and "unat (0x0d AND 0x07 :: byte) \<noteq> 2"
    by simp_all
  from unknown_wire_type_halts [OF this, of _ _ "[Varint 1 1]" "[0x08, 0x02]"]
  have "parseLoop (encodeFields [Varint 1 1] @ 0x0d # [0x08, 0x02]) initial
      = Some \<lparr>offset = int (length (encodeFields [Varint 1 1] @ 0x0d # [0x08, 0x02])),
              result = foldl recordField Map.empty [Varint 1 1],
              warnings = [(unat (0x0d AND 0x07 :: byte), int (length (encodeFields [Varint 1 1])))]\<rparr>"
    by simp
  then show ?thesis
    by (simp only: buf wt) (simp add: encodeFields_def encodeVarint.simps recordVarint_def)
qed

section \<open>The request encoder followed by the decoder\<close>





section \<open>Decoding a buffer that ends inside a field\<close>

lemma encodeVarint_length_1: "length (encodeVarint m) = 1 \<longleftrightarrow> m < 128"
  by (subst encodeVarint.simps) (simp add: encodeVarint.simps [of "m div 128"])

lemma readVarint_truncated_gen:
  "k < length (encodeVarint m) \<Longrightarrow> v < 2 ^ shift \<Longrightarrow> v + m * 2 ^ shift < 2 ^ 32 \<Longrightarrow>
   vr_offset (readVarint (pre @ take k (encodeVarint m)) (int (length pre)) (of_nat v) shift reads)
     = int (length pre) + int k
   \<and> vr_value (readVarint (pre @ take k (encodeVarint m)) (int (length pre)) (of_nat v) shift reads)
     = of_nat (v + m mod 128 ^ k * 2 ^ shift)"
proof (induction m arbitrary: pre v shift reads k rule: encodeVarint.induct)
  case (1 m)
  show ?case
  proof (cases k)
    case 0
    then show ?thesis by (subst (1 2) readVarint.simps) simp
  next
    case (Suc k')
    with "1.prems"(1) have "length (encodeVarint m) \<noteq> 1" by simp
    then have big: "\<not> m < 128" using encodeVarint_length_1 [of m] by simp
    let ?b = "of_nat (m mod 128 + 128) :: byte"
    from big have enc: "encodeVarint m = ?b # encodeVarint (m div 128)"
      by (subst encodeVarint.simps) simp
    have k': "k' < length (encodeVarint (m div 128))"
      using "1.prems"(1) by (simp add: enc Suc)
    have u: "unat ?b = m mod 128 + 128" by (rule unat_of_nat_byte) simp
    have tk: "take k (encodeVarint m) = ?b # take k' (encodeVarint (m div 128))"
      by (simp add: enc Suc)
    have g: "buf_get (pre @ take k (encodeVarint m)) (int (length pre)) = Some ?b"
      by (simp only: tk buf_get_append)
    let ?v = "v + m mod 128 * 2 ^ shift"
    have split: "v + m * 2 ^ shift = ?v + m div 128 * 2 ^ (shift + 7)"
    proof -
      have "m * 2 ^ shift = (m div 128 * 128 + m mod 128) * 2 ^ shift"
        by (simp only: div_mult_mod_eq)
      also have "\<dots> = m div 128 * 2 ^ (shift + 7) + m mod 128 * 2 ^ shift"
      proof -
        have "(q * 128 + r) * 2 ^ shift = q * 2 ^ (shift + 7) + r * 2 ^ shift" for q r :: nat
          by (simp add: algebra_simps power_add)
        then show ?thesis .
      qed
      finally show ?thesis by simp
    qed
    have v1: "?v < 2 ^ (shift + 7)"
    proof -
      have "m mod 128 * 2 ^ shift \<le> 127 * 2 ^ shift" by simp
      with "1.prems"(2) have "?v < 128 * 2 ^ shift" by linarith
      then show ?thesis by (simp add: power_add)
    qed
    have v2: "?v + m div 128 * 2 ^ (shift + 7) < 2 ^ 32"
      using "1.prems"(3) split by simp
    have v3: "?v < 2 ^ 32" using v2 by linarith
    have w: "(of_nat v :: 32 word) OR push_bit (shift mod 32) (of_nat (m mod 128)) = of_nat ?v"
      using varint_step_word [OF "1.prems"(2), of "m mod 128"] v3 by simp
    have l: "int (length (pre @ [?b])) = int (length pre) + 1" by simp
    have b: "pre @ take k (encodeVarint m) = (pre @ [?b]) @ take k' (encodeVarint (m div 128))"
      by (simp add: tk)
    have IH: "vr_offset (readVarint ((pre @ [?b]) @ take k' (encodeVarint (m div 128)))
                  (int (length (pre @ [?b]))) (of_nat ?v) (shift + 7) (reads @ [int (length pre)]))
        = int (length (pre @ [?b])) + int k'
      \<and> vr_value (readVarint ((pre @ [?b]) @ take k' (encodeVarint (m div 128)))
                  (int (length (pre @ [?b]))) (of_nat ?v) (shift + 7) (reads @ [int (length pre)]))
        = of_nat (?v + m div 128 mod 128 ^ k' * 2 ^ (shift + 7))"
      by (rule "1.IH" [OF big k' v1 v2])
    have step: "readVarint (pre @ take k (encodeVarint m)) (int (length pre)) (of_nat v) shift reads
        = readVarint ((pre @ [?b]) @ take k' (encodeVarint (m div 128)))
                  (int (length (pre @ [?b]))) (of_nat ?v) (shift + 7) (reads @ [int (length pre)])"
    proof -
      have hb: "\<not> unat ?b < 128" and m128: "unat ?b mod 128 = m mod 128"
        by (simp_all only: u) simp_all
      show ?thesis
        by (simp only: readVarint_step [OF g] hb if_False m128 w l flip: b)
    qed
    have val: "?v + m div 128 mod 128 ^ k' * 2 ^ (shift + 7) = v + m mod 128 ^ k * 2 ^ shift"
    proof -
      have "m mod 128 ^ k = 128 * (m div 128 mod 128 ^ k') + m mod 128"
        by (simp add: Suc mod_mult2_eq)
      then show ?thesis by (simp add: algebra_simps power_add)
    qed
    from IH show ?thesis
      by (simp only: step val) (simp add: Suc)
  qed
qed

lemma readVarint_truncated:
  assumes "k < length (encodeVarint n)" and "n < 2 ^ 31"
  shows "vr_offset (readVarint (pre @ take k (encodeVarint n)) (int (length pre)) 0 0 [])
           = int (length pre) + int k"
    and "sint (vr_value (readVarint (pre @ take k (encodeVarint n)) (int (length pre)) 0 0 []))
           = int (n mod 128 ^ k)"
proof -
  from assms(2) have "n < 2 ^ 32" by simp
  then have *: "(0::nat) + n * 2 ^ 0 < 2 ^ 32" by simp
  have "n mod 128 ^ k \<le> n" by simp
  with assms(2) have small: "n mod 128 ^ k < 2 ^ 31" by linarith
  from readVarint_truncated_gen [OF assms(1) _ *, of pre "[]"]
  show "vr_offset (readVarint (pre @ take k (encodeVarint n)) (int (length pre)) 0 0 [])
           = int (length pre) + int k"
    and "sint (vr_value (readVarint (pre @ take k (encodeVarint n)) (int (length pre)) 0 0 []))
           = int (n mod 128 ^ k)"
    using sint_of_nat_small [OF small] by simp_all
qed


lemma truncated_step:
  assumes "in_range f" and "offset st = int (length pre)"
    and "0 < j" and "j < length (encodeField f)"
  shows "\<exists>off. parseStep (pre @ take j (encodeField f)) st
           = Next (st\<lparr>offset := off, result := recordTruncated (result st) f j\<rparr>)
         \<and> int (length (pre @ take j (encodeField f))) \<le> off"
proof -
  from assms(3) obtain j' where j: "j = Suc j'" by (cases j) simp_all
  show ?thesis
  proof (cases f)
    case (Varint fn n)
    with assms(1) have fn: "fn < 32" and n: "n < 2 ^ 31" by simp_all
    let ?tag = "of_nat (fn * 8) :: byte"
    let ?buf = "pre @ take j (encodeField f)"
    from assms(4) have j': "j' < length (encodeVarint n)" by (simp add: Varint j)
    have buf: "?buf = (pre @ [?tag]) @ take j' (encodeVarint n)" by (simp add: Varint j)
    have g: "buf_get ?buf (offset st) = Some ?tag"
      by (simp add: Varint j assms(2) buf_get_append)
    have l: "offset st + 1 = int (length (pre @ [?tag]))" by (simp add: assms(2))
    have rv: "readVarint ?buf (offset st + 1) 0 0 []
        = readVarint ((pre @ [?tag]) @ take j' (encodeVarint n)) (int (length (pre @ [?tag]))) 0 0 []"
      by (simp only: l buf)
    have "parseStep ?buf st
        = Next (st\<lparr>offset := int (length (pre @ [?tag])) + int j',
                   result := recordVarint fn (int (n mod 128 ^ j')) (result st)\<rparr>)"
      by (simp only: step_varint [OF g fn] rv readVarint_truncated [OF j' n])
    moreover have "recordVarint fn (int (n mod 128 ^ j')) (result st)
        = recordTruncated (result st) f j"
      by (simp add: Varint j)
    moreover have "int (length ?buf) \<le> int (length (pre @ [?tag])) + int j'"
      using j' by (simp add: buf)
    ultimately show ?thesis
      by (intro exI [where x = "int (length (pre @ [?tag])) + int j'"]) (simp only: simp_thms)
  next
    case (LengthDelimited fn data)
    with assms(1) have fn: "fn < 32" and n: "length data < 2 ^ 31" by simp_all
    let ?tag = "of_nat (fn * 8 + 2) :: byte"
    let ?buf = "pre @ take j (encodeField f)"
    let ?pre = "pre @ [?tag]"
    let ?enc = "encodeVarint (length data)"
    have g: "buf_get ?buf (offset st) = Some ?tag"
      by (simp add: LengthDelimited j assms(2) buf_get_append)
    have l: "offset st + 1 = int (length ?pre)" by (simp add: assms(2))
    show ?thesis
    proof (cases "j' < length ?enc")
      case True
      have buf: "?buf = ?pre @ take j' ?enc" using True by (simp add: LengthDelimited j)
      have rv: "readVarint ?buf (offset st + 1) 0 0 []
          = readVarint (?pre @ take j' ?enc) (int (length ?pre)) 0 0 []"
        by (simp only: l buf)
      have len: "int (length ?pre) + int j' = int (length ?buf)"
        using True by (simp add: buf)
      have "parseStep ?buf st
          = Next (st\<lparr>offset := int (length ?buf) + int (length data mod 128 ^ j'),
                result := recordString fn (utf8_string (subarray ?buf (int (length ?buf))
                  (int (length ?buf) + int (length data mod 128 ^ j')))) (result st)\<rparr>)"
        by (simp only: step_string [OF g fn] Let_def rv readVarint_truncated [OF True n] len)
      moreover have "subarray ?buf (int (length ?buf))
          (int (length ?buf) + int (length data mod 128 ^ j')) = []"
        using subarray_take [of ?buf "[]" "length data mod 128 ^ j'"] by simp
      moreover have "recordString fn (utf8_string []) (result st)
          = recordTruncated (result st) f j"
        using True by (simp add: LengthDelimited j)
      moreover have "int (length ?buf) \<le> int (length ?buf) + int (length data mod 128 ^ j')"
        by simp
      ultimately show ?thesis
        by (intro exI [where x = "int (length ?buf) + int (length data mod 128 ^ j')"])
           (simp only: simp_thms)
    next
      case False
      let ?k = "j' - length ?enc"
      let ?off = "int (length ?pre) + int (length ?enc)"
      have k: "?k < length data" using False assms(4) by (simp add: LengthDelimited j)
      have buf: "?buf = ?pre @ ?enc @ take ?k data"
        using False by (simp add: LengthDelimited j)
      have rv: "readVarint ?buf (offset st + 1) 0 0 []
          = readVarint (?pre @ ?enc @ take ?k data) (int (length ?pre)) 0 0 []"
        by (simp only: l buf)
      have "parseStep ?buf st
          = Next (st\<lparr>offset := ?off + int (length data),
                result := recordString fn (utf8_string (subarray ?buf ?off
                  (?off + int (length data)))) (result st)\<rparr>)"
        by (simp only: step_string [OF g fn] Let_def rv readVarint_encodeVarint [OF n])
      moreover have "subarray ?buf ?off (?off + int (length data)) = take ?k data"
      proof -
        have "subarray ((?pre @ ?enc) @ take ?k data) (int (length (?pre @ ?enc)))
            (int (length (?pre @ ?enc)) + int (length data)) = take (length data) (take ?k data)"
          by (rule subarray_take)
        then show ?thesis using k by (simp add: buf ac_simps)
      qed
      moreover have "recordString fn (utf8_string (take ?k data)) (result st)
          = recordTruncated (result st) f j"
        by (simp add: LengthDelimited j)
      moreover have "int (length ?buf) \<le> ?off + int (length data)"
        using k by (simp add: buf)
      ultimately show ?thesis
        by (intro exI [where x = "?off + int (length data)"]) (simp only: simp_thms)
    qed
  qed
qed

lemma parse_truncated:
  assumes "list_all in_range fs" and "in_range f" and "0 < j" and "j < length (encodeField f)"
  shows "\<exists>st. parseLoop (encodeFields fs @ take j (encodeField f)) initial = Some st
           \<and> result st = recordTruncated (foldl recordField Map.empty fs) f j
           \<and> warnings st = []"
proof -
  let ?t = "take j (encodeField f)"
  let ?buf = "encodeFields fs @ ?t"
  let ?st1 = "initial\<lparr>offset := int (length ([] :: byte list)) + int (length (encodeFields fs)),
                       result := foldl recordField (result initial) fs\<rparr>"
  have "parseLoop ([] @ encodeFields fs @ ?t) initial = parseLoop ([] @ encodeFields fs @ ?t) ?st1"
    by (rule loop_fields [OF assms(1)]) (simp add: initial_def)
  then have one: "parseLoop ?buf initial = parseLoop ?buf ?st1" by simp
  have o1: "offset ?st1 = int (length (encodeFields fs))" by simp
  from truncated_step [OF assms(2) o1 assms(3,4)]
  obtain off where step: "parseStep ?buf ?st1
       = Next (?st1\<lparr>offset := off, result := recordTruncated (result ?st1) f j\<rparr>)"
    and off: "int (length ?buf) \<le> off" by blast
  have lt: "offset ?st1 < int (length ?buf)" using assms(3,4) by simp
  have "parseLoop ?buf ?st1
      = parseLoop ?buf (?st1\<lparr>offset := off, result := recordTruncated (result ?st1) f j\<rparr>)"
    by (rule loop_next [OF lt step])
  also have "\<dots> = Some (?st1\<lparr>offset := off, result := recordTruncated (result ?st1) f j\<rparr>)"
    using off by (intro loop_end) simp
  finally show ?thesis using one by (simp add: initial_def)
qed

text \<open>
  C5, as the code has it. Take a buffer made of complete fields followed by the first
  \<open>j\<close> bytes of one more field, \<open>0 < j\<close>, all fields in the decoder's range. Decoding
  returns a result (nothing is thrown), and the result is
  the one of the complete fields with, in addition, the entries of the truncated field
  computed from the bytes that are present: the varint groups read so far, or the payload
  bytes that are there (the empty string when the length itself is cut). These entries
  replace earlier entries under the same keys. Without a truncated field the result is the
  one of the complete fields, and for the empty buffer it has no entries, so no status.
\<close>

theorem truncated_buffer_decodes:
  assumes "list_all in_range fs" and "in_range f" and "0 < j" and "j < length (encodeField f)"
  shows "parseProtobufResponse (encodeFields fs @ take j (encodeField f))
           = Some (recordTruncated (foldl recordField Map.empty fs) f j)
     \<and> parseProtobufResponse (encodeFields fs) = Some (foldl recordField Map.empty fs)
     \<and> parseProtobufResponse [] = Some Map.empty"
proof -
  from parse_truncated [OF assms]
  have "parseProtobufResponse (encodeFields fs @ take j (encodeField f))
           = Some (recordTruncated (foldl recordField Map.empty fs) f j)"
    by (auto simp: parseProtobufResponse_def)
  moreover from parse_fields [OF assms(1)]
  have "parseProtobufResponse (encodeFields fs) = Some (foldl recordField Map.empty fs)"
    by (simp add: parseProtobufResponse_def)
  moreover have "parseProtobufResponse [] = Some Map.empty"
    by (simp add: run_defs)
  ultimately show ?thesis by simp
qed

theorem truncated_buffer_decodes_witness:
  "encodeFields [Varint 1 1] @ take 4 (encodeField (LengthDelimited 2 [0x31, 0x32, 0x6d, 0x73]))
     = [0x08, 0x01, 0x12, 0x04, 0x31, 0x32]
   \<and> parseProtobufResponse [0x08, 0x01, 0x12, 0x04, 0x31, 0x32]
     = Some (Map.empty(FieldN 1 \<mapsto> Num 1, Status \<mapsto> Num 1,
                       FieldN 2 \<mapsto> Str (js ''12''), Latency \<mapsto> Str (js ''12'')))"
proof -
  let ?fs = "[Varint 1 1]"
  let ?f = "LengthDelimited 2 [0x31, 0x32, 0x6d, 0x73]"
  have buf: "encodeFields ?fs @ take 4 (encodeField ?f) = [0x08, 0x01, 0x12, 0x04, 0x31, 0x32]"
    by (simp add: encodeFields_def encodeVarint.simps)
  have res: "recordTruncated (foldl recordField Map.empty ?fs) ?f 4
      = Map.empty(FieldN 1 \<mapsto> Num 1, Status \<mapsto> Num 1,
                  FieldN 2 \<mapsto> Str (js ''12''), Latency \<mapsto> Str (js ''12''))"
    by (simp add: recordVarint_def recordString_def encodeVarint.simps utf8_defs js_def)
  have "list_all in_range ?fs" and "in_range ?f" and "(0::nat) < 4"
    and "4 < length (encodeField ?f)"
    by (simp_all add: encodeVarint.simps)
  from truncated_buffer_decodes [OF this] show ?thesis
    by (simp only: buf res simp_thms)
qed

text \<open>
  The claim as stated fails on the buffer 08 01 08: field 1 with value 1 is complete, the
  second tag has no value after it, and the result holds 0 for field 1 and for the status,
  the entry of the truncated field, not the value 1 of the field that was parsed.
\<close>

theorem truncated_buffer_counterexample:
  "parseProtobufResponse [0x08, 0x01] = Some (Map.empty(FieldN 1 \<mapsto> Num 1, Status \<mapsto> Num 1))
   \<and> parseProtobufResponse [0x08, 0x01, 0x08]
       = Some (Map.empty(FieldN 1 \<mapsto> Num 0, Status \<mapsto> Num 0))
   \<and> parseProtobufResponse [0x08] = Some (Map.empty(FieldN 1 \<mapsto> Num 0, Status \<mapsto> Num 0))"
  by (simp add: run_defs)

end
